theory Spec2Isabelle
  imports Main
begin

section \<open>Data model\<close>

text \<open>
  The embedding follows \<^verbatim>\<open>src/DenseUAV/image.py\<close>, whose single function
  \<^verbatim>\<open>divide_image_into_patches\<close> is split here along its own comments: the search
  for a grid arrangement (lines 42-70), the choice of the final grid (lines 72-92)
  and the extraction loop (lines 94-123). Python integers are unbounded, so every
  number is an \<^typ>\<open>int\<close>; Python's \<^verbatim>\<open>//\<close> and \<^verbatim>\<open>%\<close> round towards minus
  infinity, as \<open>div\<close> and \<open>mod\<close> on \<^typ>\<open>int\<close> do, and raise
  \<^verbatim>\<open>ZeroDivisionError\<close> on a zero divisor, which the model writes out as a
  branch.
\<close>

datatype py_error =
    FileNotFoundError string
  | ZeroDivisionError
  | ValueError
  | CodecError
  | StorageError

text \<open>
  \<^verbatim>\<open>int(math.sqrt(n))\<close> for \<open>n \<ge> 0\<close>: the integer part of the square root. The
  source computes it in double precision, which is exact for every \<open>n\<close> below
  \<open>2 ^ 52\<close>; the model is the exact integer square root.
\<close>

fun floor_sqrt :: "nat \<Rightarrow> nat" where
  "floor_sqrt n =
     (if n < 4 then (if n = 0 then 0 else 1)
      else (let r = 2 * floor_sqrt (n div 4)
            in if (r + 1) * (r + 1) \<le> n then r + 1 else r))"

declare floor_sqrt.simps [simp del]

definition int_sqrt :: "int \<Rightarrow> int" where
  "int_sqrt n = int (floor_sqrt (nat n))"

text \<open>
  The two variables the search loop updates: \<open>best_score\<close> starts as
  \<^verbatim>\<open>float('inf')\<close>, modelled by \<open>None\<close>, and \<open>best_arrangement\<close> starts as
  \<^verbatim>\<open>None\<close>. An arrangement is the tuple
  \<^verbatim>\<open>(num_patches_y, num_patches_x, patch_size_candidate)\<close>.
\<close>

type_synonym arrangement = "int \<times> int \<times> int"

record search_state =
  best_score :: "int option"
  best_arrangement :: "arrangement option"

definition initial_search :: search_state where
  "initial_search = \<lparr>best_score = None, best_arrangement = None\<rparr>"

section \<open>The grid search (lines 42-70)\<close>

text \<open>\<^verbatim>\<open>score < best_score\<close>, where \<open>best_score\<close> may still be infinite.\<close>

definition score_less :: "int \<Rightarrow> int option \<Rightarrow> bool" where
  "score_less score best = (case best of None \<Rightarrow> True | Some b \<Rightarrow> score < b)"

text \<open>
  One iteration of the loop of line 46, for one value of \<^verbatim>\<open>num_patches_y\<close>
  (which the range keeps at least 1). The divisions of lines 52, 58 and 59 come
  before the test \<^verbatim>\<open>patch_size_candidate > 0\<close> of line 68.
\<close>

definition try_arrangement ::
  "int \<Rightarrow> int \<Rightarrow> int \<Rightarrow> int \<Rightarrow> search_state \<Rightarrow> py_error + search_state" where
  "try_arrangement width height target_N num_patches_y st =
     (if num_patches_y = 0 then Inl ZeroDivisionError
      else if target_N mod num_patches_y = 0 then
        (let num_patches_x = target_N div num_patches_y;
             patch_h = height div num_patches_y
         in if num_patches_x = 0 then Inl ZeroDivisionError
            else
              (let patch_w = width div num_patches_x;
                   patch_size_candidate = min patch_h patch_w
               in if patch_size_candidate = 0 then Inl ZeroDivisionError
                  else
                    (let actual_num_x = width div patch_size_candidate;
                         actual_num_y = height div patch_size_candidate;
                         actual_N = actual_num_x * actual_num_y;
                         score =
                           (if actual_N = target_N then \<bar>patch_h - patch_w\<bar>
                            else \<bar>actual_N - target_N\<bar> * 1000 + \<bar>patch_h - patch_w\<bar>)
                     in if score_less score (best_score st) \<and> patch_size_candidate > 0
                        then Inr \<lparr>best_score = Some score,
                                 best_arrangement =
                                   Some (num_patches_y, num_patches_x, patch_size_candidate)\<rparr>
                        else Inr st)))
      else Inr st)"

fun search_arrangements ::
  "int \<Rightarrow> int \<Rightarrow> int \<Rightarrow> int list \<Rightarrow> search_state \<Rightarrow> py_error + search_state" where
  "search_arrangements width height target_N [] st = Inr st"
| "search_arrangements width height target_N (y # ys) st =
     (case try_arrangement width height target_N y st of
        Inl e \<Rightarrow> Inl e
      | Inr st' \<Rightarrow> search_arrangements width height target_N ys st')"

text \<open>\<^verbatim>\<open>range(1, int(math.sqrt(target_N)) + 2)\<close>, for \<open>target_N \<ge> 0\<close>.\<close>

definition arrangement_range :: "int \<Rightarrow> int list" where
  "arrangement_range target_N = [1..int_sqrt target_N + 1]"

section \<open>The final grid (lines 72-92)\<close>

definition choose_grid :: "int \<Rightarrow> int \<Rightarrow> int \<Rightarrow> search_state \<Rightarrow> arrangement" where
  "choose_grid width height target_N st =
     (let grid =
            (case best_arrangement st of
               None \<Rightarrow> (3, 3, min (width div 3) (height div 3))
             | Some a \<Rightarrow> a)
      in if target_N = 9 then (3, 3, min (width div 3) (height div 3)) else grid)"

text \<open>
  Lines 42-92 together: the grid planner. \<^verbatim>\<open>math.sqrt\<close> raises
  \<^verbatim>\<open>ValueError\<close> on a negative argument.
\<close>

definition grid_planner :: "int \<Rightarrow> int \<Rightarrow> int \<Rightarrow> py_error + arrangement" where
  "grid_planner width height target_N =
     (if target_N < 0 then Inl ValueError
      else
        (case search_arrangements width height target_N
                (arrangement_range target_N) initial_search of
           Inl e \<Rightarrow> Inl e
         | Inr st \<Rightarrow> Inr (choose_grid width height target_N st)))"

section \<open>Images, paths and the file system\<close>

text \<open>
  The image library is an external collaborator. An image is modelled by how it
  was obtained, which fixes its size: decoded from a file, cropped from another
  image to a box \<open>(left, upper, right, lower)\<close>, or resampled to a size. Pixel
  values are not modelled.
\<close>

datatype image =
    Decoded int int
  | Crop image "int \<times> int \<times> int \<times> int"
  | Resize image "int \<times> int"

fun image_size :: "image \<Rightarrow> int \<times> int" where
  "image_size (Decoded w h) = (w, h)"
| "image_size (Crop im (left, upper, right, lower)) = (right - left, lower - upper)"
| "image_size (Resize im sz) = sz"

text \<open>
  \<^verbatim>\<open>Image.crop\<close> rejects a box whose right edge is left of its left edge (or
  lower above upper); \<^verbatim>\<open>Image.resize\<close> rejects a size below 1.
\<close>

fun image_crop :: "image \<Rightarrow> int \<times> int \<times> int \<times> int \<Rightarrow> py_error + image" where
  "image_crop im (left, upper, right, lower) =
     (if right < left \<or> lower < upper then Inl ValueError
      else Inr (Crop im (left, upper, right, lower)))"

fun image_resize :: "image \<Rightarrow> int \<times> int \<Rightarrow> py_error + image" where
  "image_resize im (w, h) =
     (if w < 1 \<or> h < 1 then Inl ValueError else Inr (Resize im (w, h)))"

datatype file_content = ImageFile image | OtherFile

text \<open>
  The file system: the files by path, the directories, which paths can be written,
  and a journal of the images saved, oldest first.
\<close>

record filesystem =
  files :: "string \<Rightarrow> file_content option"
  dirs :: "string set"
  writable :: "string \<Rightarrow> bool"
  journal :: "(string \<times> image) list"

definition path_exists :: "filesystem \<Rightarrow> string \<Rightarrow> bool" where
  "path_exists fs p = (files fs p \<noteq> None \<or> p \<in> dirs fs)"

definition image_open :: "filesystem \<Rightarrow> string \<Rightarrow> py_error + image" where
  "image_open fs p =
     (case files fs p of Some (ImageFile im) \<Rightarrow> Inr im | _ \<Rightarrow> Inl CodecError)"

text \<open>
  \<^verbatim>\<open>os.makedirs(d, exist_ok=True)\<close>: no error when the directory exists; parent
  directories are not tracked.
\<close>

definition makedirs :: "filesystem \<Rightarrow> string \<Rightarrow> py_error + filesystem" where
  "makedirs fs d =
     (if d = [] then Inl (FileNotFoundError d)
      else if d \<in> dirs fs then Inr fs
      else if files fs d \<noteq> None \<or> \<not> writable fs d then Inl StorageError
      else Inr (fs\<lparr>dirs := insert d (dirs fs)\<rparr>))"

text \<open>\<^verbatim>\<open>patch.save(path)\<close>: an empty image cannot be encoded.\<close>

definition image_save :: "filesystem \<Rightarrow> string \<Rightarrow> image \<Rightarrow> py_error + filesystem" where
  "image_save fs p im =
     (if p \<in> dirs fs \<or> \<not> writable fs p then Inl StorageError
      else if fst (image_size im) \<le> 0 \<or> snd (image_size im) \<le> 0 then Inl CodecError
      else Inr (fs\<lparr>files := (files fs)(p \<mapsto> ImageFile im),
                   journal := journal fs @ [(p, im)]\<rparr>))"

text \<open>The functions of \<^verbatim>\<open>os.path\<close> the source calls, for POSIX paths.\<close>

definition basename :: "string \<Rightarrow> string" where
  "basename p = rev (takeWhile (\<lambda>c. c \<noteq> CHR ''/'') (rev p))"

definition dirname :: "string \<Rightarrow> string" where
  "dirname p =
     (let head = rev (dropWhile (\<lambda>c. c \<noteq> CHR ''/'') (rev p))
      in if head \<noteq> [] \<and> (\<exists>c \<in> set head. c \<noteq> CHR ''/'')
         then rev (dropWhile (\<lambda>c. c = CHR ''/'') (rev head))
         else head)"

text \<open>The first component of \<^verbatim>\<open>os.path.splitext(p)\<close>.\<close>

definition splitext_root :: "string \<Rightarrow> string" where
  "splitext_root p =
     (let head = rev (dropWhile (\<lambda>c. c \<noteq> CHR ''/'') (rev p));
          name = basename p
      in if CHR ''.'' \<in> set name
         then (let stem = rev (tl (dropWhile (\<lambda>c. c \<noteq> CHR ''.'') (rev name)))
               in if \<exists>c \<in> set stem. c \<noteq> CHR ''.'' then head @ stem else p)
         else p)"

definition path_join :: "string \<Rightarrow> string \<Rightarrow> string" where
  "path_join a b =
     (if b \<noteq> [] \<and> hd b = CHR ''/'' then b
      else if a = [] \<or> last a = CHR ''/'' then a @ b
      else a @ ''/'' @ b)"

text \<open>\<^verbatim>\<open>str\<close> of an integer, as the f-string of line 116 formats it.\<close>

fun str_nat :: "nat \<Rightarrow> string" where
  "str_nat n =
     (if n < 10 then [''0123456789'' ! n]
      else str_nat (n div 10) @ [''0123456789'' ! (n mod 10)])"

declare str_nat.simps [simp del]

definition str_int :: "int \<Rightarrow> string" where
  "str_int i = (if i < 0 then ''-'' @ str_nat (nat (- i)) else str_nat (nat i))"

section \<open>The extraction loop (lines 94-123)\<close>

text \<open>The variables the loop reads.\<close>

record patch_job =
  img :: image
  width :: int
  height :: int
  base_name :: string
  output_dir :: string
  target_N :: int
  num_patches_x :: int
  patch_size :: int

text \<open>Lines 102-113: the crop box, the crop and the resize to a square.\<close>

definition crop_box :: "patch_job \<Rightarrow> int \<Rightarrow> int \<Rightarrow> int \<times> int \<times> int \<times> int" where
  "crop_box job i j =
     (let left = j * patch_size job;
          top = i * patch_size job;
          right = min (left + patch_size job) (width job);
          bottom = min (top + patch_size job) (height job)
      in (left, top, right, bottom))"

definition make_patch :: "patch_job \<Rightarrow> int \<Rightarrow> int \<Rightarrow> py_error + image" where
  "make_patch job i j =
     (case image_crop (img job) (crop_box job i j) of
        Inl e \<Rightarrow> Inl e
      | Inr patch \<Rightarrow>
          if fst (image_size patch) \<noteq> patch_size job \<or> snd (image_size patch) \<noteq> patch_size job
          then image_resize patch (patch_size job, patch_size job)
          else Inr patch)"

text \<open>Lines 116-117.\<close>

definition patch_filename :: "string \<Rightarrow> int \<Rightarrow> int \<Rightarrow> string" where
  "patch_filename base i j = base @ ''_patch_'' @ str_int i @ ''_'' @ str_int j @ ''.png''"

definition patch_path :: "patch_job \<Rightarrow> int \<Rightarrow> int \<Rightarrow> string" where
  "patch_path job i j = path_join (output_dir job) (patch_filename (base_name job) i j)"

definition save_patch :: "patch_job \<Rightarrow> int \<Rightarrow> int \<Rightarrow> filesystem \<Rightarrow> py_error + filesystem" where
  "save_patch job i j fs =
     (case make_patch job i j of
        Inl e \<Rightarrow> Inl e
      | Inr patch \<Rightarrow> image_save fs (patch_path job i j) patch)"

text \<open>
  The inner loop over \<open>j\<close> (lines 97-120) and the outer loop over \<open>i\<close> (lines
  96-123), each with its \<^verbatim>\<open>break\<close>. The state is the file system and
  \<open>patch_count\<close>; an error leaves the file system as it was when it was raised.
\<close>

fun patch_row ::
  "patch_job \<Rightarrow> int \<Rightarrow> int list \<Rightarrow> filesystem \<Rightarrow> int \<Rightarrow> filesystem \<times> (py_error + int)" where
  "patch_row job i [] fs patch_count = (fs, Inr patch_count)"
| "patch_row job i (j # js) fs patch_count =
     (if patch_count \<ge> target_N job then (fs, Inr patch_count)
      else
        (case save_patch job i j fs of
           Inl e \<Rightarrow> (fs, Inl e)
         | Inr fs' \<Rightarrow> patch_row job i js fs' (patch_count + 1)))"

fun patch_rows ::
  "patch_job \<Rightarrow> int list \<Rightarrow> filesystem \<Rightarrow> int \<Rightarrow> filesystem \<times> (py_error + int)" where
  "patch_rows job [] fs patch_count = (fs, Inr patch_count)"
| "patch_rows job (i # is) fs patch_count =
     (case patch_row job i [0..num_patches_x job - 1] fs patch_count of
        (fs', Inl e) \<Rightarrow> (fs', Inl e)
      | (fs', Inr patch_count') \<Rightarrow>
          if patch_count' \<ge> target_N job then (fs', Inr patch_count')
          else patch_rows job is fs' patch_count')"

section \<open>The whole function\<close>

definition not_found_message :: "string \<Rightarrow> string" where
  "not_found_message image_path =
     ''Image file not found: '' @ image_path @ [CHR 0x0A]
     @ ''Please ensure the image file exists at the specified path.''"

text \<open>Lines 31-32: the directory the patches go to.\<close>

definition resolve_output_dir :: "string \<Rightarrow> string option \<Rightarrow> string" where
  "resolve_output_dir image_path out =
     (case out of
        None \<Rightarrow> (if dirname image_path = [] then ''.'' else dirname image_path)
      | Some d \<Rightarrow> d)"

text \<open>
  \<^verbatim>\<open>divide_image_into_patches(image_path, target_N, output_dir)\<close> on a file
  system: the file system afterwards, and the error raised or the count
  returned. The progress text printed at the end is not modelled.
\<close>

definition divide_image_into_patches ::
  "filesystem \<Rightarrow> string \<Rightarrow> int \<Rightarrow> string option \<Rightarrow> filesystem \<times> (py_error + int)" where
  "divide_image_into_patches fs image_path n out =
     (if \<not> path_exists fs image_path
      then (fs, Inl (FileNotFoundError (not_found_message image_path)))
      else
        (case image_open fs image_path of
           Inl e \<Rightarrow> (fs, Inl e)
         | Inr im \<Rightarrow>
             (let (w, h) = image_size im;
                  out_dir = resolve_output_dir image_path out
              in case makedirs fs out_dir of
                   Inl e \<Rightarrow> (fs, Inl e)
                 | Inr fs1 \<Rightarrow>
                     (let base = splitext_root (basename image_path)
                      in case grid_planner w h n of
                           Inl e \<Rightarrow> (fs1, Inl e)
                         | Inr (rows, columns, edge) \<Rightarrow>
                             patch_rows
                               \<lparr>img = im, width = w, height = h, base_name = base,
                                output_dir = out_dir, target_N = n,
                                num_patches_x = columns, patch_size = edge\<rparr>
                               [0..rows - 1] fs1 0))))"

section \<open>Notions used to state the properties of the extraction\<close>

text \<open>The cells of a grid in row-major order.\<close>

definition grid_cells :: "int list \<Rightarrow> int \<Rightarrow> (int \<times> int) list" where
  "grid_cells rows columns = concat (map (\<lambda>i. map (Pair i) [0..columns - 1]) rows)"

text \<open>A journal entry is the patch of a cell, saved under the cell's path.\<close>

definition saved_patch :: "patch_job \<Rightarrow> int \<times> int \<Rightarrow> string \<times> image \<Rightarrow> bool" where
  "saved_patch job cell entry =
     (fst entry = patch_path job (fst cell) (snd cell) \<and>
      make_patch job (fst cell) (snd cell) = Inr (snd entry))"

text \<open>The number a string of decimal digits denotes.\<close>

definition digits_value :: "string \<Rightarrow> nat" where
  "digits_value s = foldl (\<lambda>a c. 10 * a + (of_char c - 48)) 0 s"

text \<open>A grid of square patches that lies within a \<open>w\<close> by \<open>h\<close> image.\<close>

definition fits_image :: "int \<Rightarrow> int \<Rightarrow> arrangement \<Rightarrow> bool" where
  "fits_image w h a =
     (case a of (rows, columns, edge) \<Rightarrow> 0 \<le> edge \<and> columns * edge \<le> w \<and> rows * edge \<le> h)"

text \<open>A small file system: one 4 by 4 image in a directory.\<close>

definition example_fs :: filesystem where
  "example_fs =
     \<lparr>files = [''photos/img.v2.png'' \<mapsto> ImageFile (Decoded 4 4)],
      dirs = {''photos''},
      writable = (\<lambda>p. True),
      journal = []\<rparr>"

section \<open>The specification's wording of the planner\<close>

text \<open>
  The candidate rows, the edge and the score as section 4.1 of the specification
  words them, and what it is for a row count to be the first one of lowest score
  among the candidates of positive edge.
\<close>

definition spec_rows :: "int \<Rightarrow> int list" where
  "spec_rows targetCount =
     filter (\<lambda>rows. targetCount mod rows = 0) [1..int_sqrt targetCount + 1]"

definition spec_edge :: "int \<Rightarrow> int \<Rightarrow> int \<Rightarrow> int \<Rightarrow> int" where
  "spec_edge w h targetCount rows = min (h div rows) (w div (targetCount div rows))"

definition spec_score :: "int \<Rightarrow> int \<Rightarrow> int \<Rightarrow> int \<Rightarrow> int" where
  "spec_score w h targetCount rows =
     (let patchHeightCandidate = h div rows;
          patchWidthCandidate = w div (targetCount div rows);
          edgeCandidate = min patchHeightCandidate patchWidthCandidate;
          achievedCount = (h div edgeCandidate) * (w div edgeCandidate)
      in if achievedCount = targetCount
         then \<bar>patchHeightCandidate - patchWidthCandidate\<bar>
         else \<bar>achievedCount - targetCount\<bar> * 1000
              + \<bar>patchHeightCandidate - patchWidthCandidate\<bar>)"

definition first_lowest :: "int \<Rightarrow> int \<Rightarrow> int \<Rightarrow> int list \<Rightarrow> int \<Rightarrow> bool" where
  "first_lowest w h targetCount cands rows =
     (rows \<in> set cands \<and> 0 < spec_edge w h targetCount rows \<and>
      (\<forall>r \<in> set cands. 0 < spec_edge w h targetCount r \<longrightarrow>
         spec_score w h targetCount rows \<le> spec_score w h targetCount r \<and>
         (r < rows \<longrightarrow> spec_score w h targetCount rows < spec_score w h targetCount r)))"

text \<open>
  The invariant of the search loop after the values 1 to \<open>k\<close> of
  \<open>num_patches_y\<close>: the state holds the first arrangement of lowest score among
  them.
\<close>

definition search_inv :: "int \<Rightarrow> int \<Rightarrow> int \<Rightarrow> int \<Rightarrow> search_state \<Rightarrow> bool" where
  "search_inv w h n k st =
     (\<exists>r. first_lowest w h n (filter (\<lambda>r. n mod r = 0) [1..k]) r \<and>
          best_score st = Some (spec_score w h n r) \<and>
          best_arrangement st = Some (r, n div r, spec_edge w h n r))"

section \<open>Properties of the grid planner\<close>

subsection \<open>The integer square root\<close>

lemma floor_sqrt_bounds:
  "floor_sqrt n * floor_sqrt n \<le> n \<and> n < (floor_sqrt n + 1) * (floor_sqrt n + 1)"
proof (induction n rule: floor_sqrt.induct)
  case (1 n)
  show ?case
  proof (cases "n < 4")
    case True
    then show ?thesis by (simp add: floor_sqrt.simps [of n])
  next
    case False
    define s where "s = floor_sqrt (n div 4)"
    from 1 False have ih: "s * s \<le> n div 4" "n div 4 < (s + 1) * (s + 1)"
      by (simp_all add: s_def)
    have lo: "(2 * s) * (2 * s) \<le> n"
    proof -
      have "(2 * s) * (2 * s) = 4 * (s * s)" by simp
      also have "\<dots> \<le> 4 * (n div 4)" using ih(1) by simp
      also have "\<dots> \<le> n" by simp
      finally show ?thesis .
    qed
    have hi: "n < (2 * s + 2) * (2 * s + 2)"
    proof -
      have "n < 4 * (n div 4) + 4" by presburger
      also have "\<dots> \<le> 4 * ((s + 1) * (s + 1))" using ih(2) by simp
      also have "\<dots> = (2 * s + 2) * (2 * s + 2)" by (simp add: algebra_simps)
      finally show ?thesis .
    qed
    show ?thesis
    proof (cases "(2 * s + 1) * (2 * s + 1) \<le> n")
      case True
      then have "floor_sqrt n = 2 * s + 1"
        using False by (simp add: floor_sqrt.simps [of n] s_def Let_def)
      then show ?thesis using True hi by (simp add: algebra_simps)
    next
      case False
      then have "floor_sqrt n = 2 * s"
        using \<open>\<not> n < 4\<close> by (simp add: floor_sqrt.simps [of n] s_def Let_def)
      then show ?thesis using False lo by (simp add: algebra_simps)
    qed
  qed
qed

lemma floor_sqrt_square: "floor_sqrt (k * k) = k"
proof -
  let ?s = "floor_sqrt (k * k)"
  have b: "?s * ?s \<le> k * k" "k * k < (?s + 1) * (?s + 1)"
    using floor_sqrt_bounds [of "k * k"] by simp_all
  have "\<not> k < ?s"
  proof
    assume "k < ?s"
    then have "k * k < ?s * ?s" by (simp add: mult_strict_mono)
    with b(1) show False by simp
  qed
  moreover have "\<not> ?s + 1 \<le> k"
  proof
    assume a: "?s + 1 \<le> k"
    from mult_le_mono [OF a a] b(2) show False by simp
  qed
  ultimately show ?thesis by simp
qed

lemma int_sqrt_square: "0 \<le> k \<Longrightarrow> int_sqrt (k * k) = k"
  using floor_sqrt_square [of "nat k"] by (simp add: int_sqrt_def nat_mult_distrib)

lemma int_sqrt_nonneg: "0 \<le> int_sqrt n"
  by (simp add: int_sqrt_def)

subsection \<open>The search loop keeps the first arrangement of lowest score\<close>

lemma try_arrangement_divisor:
  assumes "y \<noteq> 0" "n mod y = 0" "n div y \<noteq> 0" "0 < spec_edge w h n y"
  shows "try_arrangement w h n y st =
           Inr (if score_less (spec_score w h n y) (best_score st)
                then \<lparr>best_score = Some (spec_score w h n y),
                      best_arrangement = Some (y, n div y, spec_edge w h n y)\<rparr>
                else st)"
  using assms
  by (auto simp: try_arrangement_def spec_edge_def spec_score_def Let_def mult.commute)

lemma try_arrangement_skip:
  "y \<noteq> 0 \<Longrightarrow> n mod y \<noteq> 0 \<Longrightarrow> try_arrangement w h n y st = Inr st"
  by (simp add: try_arrangement_def)

lemma search_arrangements_snoc:
  "search_arrangements w h n (ys @ [y]) st =
     (case search_arrangements w h n ys st of
        Inl e \<Rightarrow> Inl e
      | Inr st' \<Rightarrow> try_arrangement w h n y st')"
  by (induction ys arbitrary: st) (auto split: sum.splits)

lemma divisor_quotient_pos:
  assumes "0 < (n::int)" "0 < y" "n mod y = 0"
  shows "0 < n div y"
proof -
  have "y * (n div y) = n" using assms(3) mult_div_mod_eq [of y n] by simp
  then have "0 < y * (n div y)" using assms(1) by simp
  then show ?thesis using assms(2) by (simp add: zero_less_mult_iff)
qed

lemma search_first:
  assumes "0 < n" "0 < spec_edge w h n 1"
  shows "\<exists>st. search_arrangements w h n [1..1] initial_search = Inr st \<and> search_inv w h n 1 st"
proof -
  have "try_arrangement w h n 1 initial_search =
          Inr \<lparr>best_score = Some (spec_score w h n 1),
               best_arrangement = Some (1, n div 1, spec_edge w h n 1)\<rparr>"
    using assms by (subst try_arrangement_divisor) (simp_all add: initial_search_def score_less_def)
  then show ?thesis
    using assms by (simp add: search_inv_def first_lowest_def)
qed

lemma search_step:
  assumes n: "0 < n" and k: "1 \<le> k"
    and inv: "search_inv w h n k st"
    and edge: "n mod (k + 1) = 0 \<longrightarrow> 0 < spec_edge w h n (k + 1)"
  shows "\<exists>st'. try_arrangement w h n (k + 1) st = Inr st' \<and> search_inv w h n (k + 1) st'"
proof -
  have range: "[1..k + 1] = [1..k] @ [k + 1]"
    using k upto_rec2 [of 1 "k + 1"] by simp
  from inv obtain r where r: "first_lowest w h n (filter (\<lambda>r. n mod r = 0) [1..k]) r"
    "best_score st = Some (spec_score w h n r)"
    "best_arrangement st = Some (r, n div r, spec_edge w h n r)"
    by (auto simp: search_inv_def)
  show ?thesis
  proof (cases "n mod (k + 1) = 0")
    case False
    then have "try_arrangement w h n (k + 1) st = Inr st"
      using k by (simp add: try_arrangement_skip)
    moreover have "search_inv w h n (k + 1) st"
      using r False by (auto simp: search_inv_def range)
    ultimately show ?thesis by simp
  next
    case True
    then have e: "0 < spec_edge w h n (k + 1)" using edge by simp
    have q: "n div (k + 1) \<noteq> 0"
      using divisor_quotient_pos [of n "k + 1"] n k True by simp
    have step: "try_arrangement w h n (k + 1) st =
           Inr (if score_less (spec_score w h n (k + 1)) (best_score st)
                then \<lparr>best_score = Some (spec_score w h n (k + 1)),
                      best_arrangement = Some (k + 1, n div (k + 1), spec_edge w h n (k + 1))\<rparr>
                else st)"
      using k True q e by (intro try_arrangement_divisor) simp_all
    show ?thesis
    proof (cases "spec_score w h n (k + 1) < spec_score w h n r")
      case True
      have "first_lowest w h n (filter (\<lambda>r. n mod r = 0) [1..k + 1]) (k + 1)"
        using r(1) True e \<open>n mod (k + 1) = 0\<close>
        by (fastforce simp: first_lowest_def range)
      then show ?thesis
        using step True r(2) by (auto simp: search_inv_def score_less_def)
    next
      case False
      have "first_lowest w h n (filter (\<lambda>r. n mod r = 0) [1..k + 1]) r"
        using r(1) False e \<open>n mod (k + 1) = 0\<close>
        by (fastforce simp: first_lowest_def range)
      then show ?thesis
        using step False r by (auto simp: search_inv_def score_less_def)
    qed
  qed
qed

lemma search_prefix:
  assumes n: "0 < n" and k: "1 \<le> k"
    and edge: "\<forall>r \<in> set (filter (\<lambda>r. n mod r = 0) [1..k]). 0 < spec_edge w h n r"
  shows "\<exists>st. search_arrangements w h n [1..k] initial_search = Inr st \<and> search_inv w h n k st"
  using k edge
proof (induction k rule: int_ge_induct)
  case base
  then show ?case using search_first [of n w h] n by simp
next
  case (step i)
  have range: "[1..i + 1] = [1..i] @ [i + 1]"
    using step.hyps upto_rec2 [of 1 "i + 1"] by simp
  from step have "\<exists>st. search_arrangements w h n [1..i] initial_search = Inr st \<and> search_inv w h n i st"
    by (simp add: range)
  then obtain st where st: "search_arrangements w h n [1..i] initial_search = Inr st"
    "search_inv w h n i st" by blast
  have "n mod (i + 1) = 0 \<longrightarrow> 0 < spec_edge w h n (i + 1)"
    using step.prems by (simp add: range)
  from search_step [OF n step.hyps st(2) this] st(1) show ?case
    by (simp add: range search_arrangements_snoc)
qed

lemma search_range:
  assumes "0 < n" "\<forall>r \<in> set (spec_rows n). 0 < spec_edge w h n r"
  shows "\<exists>st r. search_arrangements w h n (arrangement_range n) initial_search = Inr st \<and>
           first_lowest w h n (spec_rows n) r \<and>
           best_arrangement st = Some (r, n div r, spec_edge w h n r)"
proof -
  have "1 \<le> int_sqrt n + 1" using int_sqrt_nonneg [of n] by simp
  from search_prefix [OF assms(1) this] assms(2)
  show ?thesis
    unfolding spec_rows_def arrangement_range_def search_inv_def by blast
qed

text \<open>
  C1, for the target counts other than 9 whose enumerated candidates all have a
  positive edge. For every such positive target count the planner returns the
  candidate of
  lowest score, the first of them in ascending order of rows: its rows divide the
  target and lie between 1 and the integer square root plus 1, its columns are
  the target divided by the rows, its edge is the minimum of height over rows
  and width over columns, and no earlier candidate scores as low.
\<close>

theorem planner_first_lowest:
  assumes "0 < n" "n \<noteq> 9" "\<forall>r \<in> set (spec_rows n). 0 < spec_edge w h n r"
  shows "\<exists>r. first_lowest w h n (spec_rows n) r \<and>
             grid_planner w h n = Inr (r, n div r, spec_edge w h n r)"
proof -
  from search_range [OF assms(1) assms(3)] obtain st r where
    "search_arrangements w h n (arrangement_range n) initial_search = Inr st"
    "first_lowest w h n (spec_rows n) r"
    "best_arrangement st = Some (r, n div r, spec_edge w h n r)"
    by blast
  then show ?thesis
    using assms(1,2) by (auto simp: grid_planner_def choose_grid_def)
qed

theorem planner_first_lowest_witness:
  "first_lowest 1200 800 6 (spec_rows 6) 2 \<and> grid_planner 1200 800 6 = Inr (2, 6 div 2, 400)"
proof -
  have edges: "\<forall>r \<in> set (spec_rows 6). 0 < spec_edge 1200 800 6 r" by code_simp
  have "(0::int) < 6" "(6::int) \<noteq> 9" by simp_all
  from planner_first_lowest [OF this edges] obtain r where
    r: "first_lowest 1200 800 6 (spec_rows 6) r"
       "grid_planner 1200 800 6 = Inr (r, 6 div r, spec_edge 1200 800 6 r)"
    by blast
  have gp: "grid_planner 1200 800 6 = Inr (2, 3, 400)" by code_simp
  from r(2) gp have "r = 2" by simp
  with r(1) gp show ?thesis by simp
qed

text \<open>
  C1 does not hold at a target of 9: on a 900 by 100 image the single row of 9
  columns scores 0 and is the first candidate of lowest score, yet the planner
  returns 3 rows of 3 columns, by the override of line 85.
\<close>

theorem planner_first_lowest_counterexample:
  "grid_planner 900 100 9 = Inr (3, 3, 33) \<and>
   \<not> first_lowest 900 100 9 (spec_rows 9) 3 \<and>
   first_lowest 900 100 9 (spec_rows 9) 1"
  by code_simp

text \<open>
  C8. For width 1200, height 800 and a target of 6 patches the planner returns
  2 rows and 3 columns with an edge of 400.
\<close>

theorem planner_1200_800_6: "grid_planner 1200 800 6 = Inr (2, 3, 400)"
  by code_simp

subsection \<open>Perfect squares on square images\<close>

lemma spec_score_nonneg: "0 \<le> spec_score w h n r"
  by (simp add: spec_score_def Let_def)

lemma div_div_self:
  assumes "1 \<le> k" "k * k \<le> (s::int)"
  shows "s div (s div k) = k"
proof -
  define q where "q = s div k"
  have "(k * k) div k \<le> s div k" using assms by (intro zdiv_mono1) simp_all
  then have kq: "k \<le> q" using assms by (simp add: q_def)
  have s: "s = s mod k + k * q" by (simp add: q_def)
  have "s mod k < k" "0 \<le> s mod k" using assms by simp_all
  then have t: "0 \<le> s mod k" "s mod k < q" using kq by linarith+
  have "(s mod k + k * q) div q = k + s mod k div q"
    using kq assms by simp
  also have "s mod k div q = 0" using t by simp
  finally show ?thesis using s by (simp add: q_def)
qed

lemma square_score_zero:
  assumes "1 \<le> k" "k * k \<le> s"
  shows "spec_score s s (k * k) k = 0"
  using assms div_div_self [OF assms] by (simp add: spec_score_def Let_def)

lemma square_score_pos:
  assumes r: "1 \<le> r" "r < k" and dv: "(k * k) mod r = 0" and s: "k * k \<le> (s::int)"
  shows "0 < spec_score s s (k * k) r"
proof -
  define c where "c = (k * k) div r"
  have rc: "r * c = k * k" using dv mult_div_mod_eq [of r "k * k"] by (simp add: c_def)
  have "r < c"
  proof (rule ccontr)
    assume "\<not> r < c"
    then have "r * c \<le> r * r" using r by (simp add: mult_left_mono)
    also have "r * r < k * k" using r by (simp add: mult_strict_mono)
    finally show False using rc by simp
  qed
  then have cpos: "0 < c" using r by simp
  define a where "a = s div c"
  have "(r * c) div c \<le> s div c" using s rc cpos by (intro zdiv_mono1) simp_all
  then have ra: "r \<le> a" using cpos by (simp add: a_def)
  have "0 \<le> s mod c" using cpos by simp
  then have "c * (s div c) \<le> s" using mult_div_mod_eq [of c s] by linarith
  then have ac: "a * c \<le> s" by (simp add: a_def mult.commute)
  have "(a + 1) * r = a * r + r" by (simp add: algebra_simps)
  also have "\<dots> \<le> a * r + a" using ra by simp
  also have "\<dots> = a * (r + 1)" by (simp add: algebra_simps)
  also have "\<dots> \<le> a * c" using \<open>r < c\<close> ra r by (intro mult_left_mono) simp_all
  finally have "(a + 1) * r \<le> s" using ac by simp
  then have "((a + 1) * r) div r \<le> s div r" using r by (intro zdiv_mono1) simp_all
  then have "a + 1 \<le> s div r" using r by simp
  then have "s div r \<noteq> s div c" by (simp add: a_def)
  then have d: "0 < \<bar>s div r - s div c\<bar>" by simp
  have "0 < \<bar>x\<bar> * 1000 + \<bar>s div r - s div c\<bar>" for x :: int
    using d by (intro add_nonneg_pos) simp_all
  then show ?thesis
    using d by (simp add: spec_score_def Let_def c_def [symmetric])
qed

lemma divisor_le:
  assumes "0 < (n::int)" "0 < r" "n mod r = 0"
  shows "r \<le> n"
proof -
  have "r dvd n" using assms(3) by (simp add: mod_eq_0_iff_dvd)
  then show ?thesis using assms(1) by (rule zdvd_imp_le)
qed

lemma square_edges_pos:
  assumes k: "1 \<le> k" and s: "k * k \<le> (s::int)" and r: "r \<in> set (spec_rows (k * k))"
  shows "0 < spec_edge s s (k * k) r"
proof -
  have n: "0 < k * k" using k by simp
  from r have rpos: "0 < r" and dv: "(k * k) mod r = 0"
    by (simp_all add: spec_rows_def)
  have "r \<le> s" using divisor_le [OF n rpos dv] s by simp
  then have "r div r \<le> s div r" using rpos by (intro zdiv_mono1) simp_all
  then have a: "0 < s div r" using rpos by simp
  define c where "c = (k * k) div r"
  have cpos: "0 < c" using divisor_quotient_pos [OF n rpos dv] by (simp add: c_def)
  have "r * c = k * k" using dv mult_div_mod_eq [of r "k * k"] by (simp add: c_def)
  then have "c dvd k * k" by (metis dvd_triv_right)
  then have "c \<le> k * k" using n by (rule zdvd_imp_le)
  then have "c div c \<le> s div c" using cpos s by (intro zdiv_mono1) simp_all
  then have "0 < s div c" using cpos by simp
  with a show ?thesis by (simp add: spec_edge_def c_def)
qed

text \<open>
  C6. For a target count \<open>k * k\<close> with \<open>k \<ge> 1\<close> and a square image whose side is
  at least the target count, the planner returns \<open>k\<close> rows and \<open>k\<close> columns (with
  an edge of the side divided by \<open>k\<close>).
\<close>

theorem planner_perfect_square:
  assumes k: "1 \<le> k" and s: "k * k \<le> s"
  shows "grid_planner s s (k * k) = Inr (k, k, s div k)"
proof -
  have n: "0 < k * k" using k by simp
  have edges: "\<forall>r \<in> set (spec_rows (k * k)). 0 < spec_edge s s (k * k) r"
    using square_edges_pos [OF k s] by blast
  from search_range [OF n edges] obtain st r where
    st: "search_arrangements s s (k * k) (arrangement_range (k * k)) initial_search = Inr st"
    and fl: "first_lowest s s (k * k) (spec_rows (k * k)) r"
    and ba: "best_arrangement st = Some (r, (k * k) div r, spec_edge s s (k * k) r)"
    by blast
  have rows: "spec_rows (k * k) = filter (\<lambda>r. (k * k) mod r = 0) [1..k + 1]"
    using k by (simp add: spec_rows_def int_sqrt_square)
  have kin: "k \<in> set (spec_rows (k * k))" using k by (simp add: rows)
  have zero: "spec_score s s (k * k) k = 0" by (rule square_score_zero [OF k s])
  from fl have rin: "r \<in> set (spec_rows (k * k))"
    and least: "\<And>r'. r' \<in> set (spec_rows (k * k)) \<Longrightarrow> 0 < spec_edge s s (k * k) r' \<Longrightarrow>
           spec_score s s (k * k) r \<le> spec_score s s (k * k) r' \<and>
           (r' < r \<longrightarrow> spec_score s s (k * k) r < spec_score s s (k * k) r')"
    by (simp_all add: first_lowest_def)
  from least [OF kin] edges kin zero
  have le: "spec_score s s (k * k) r \<le> 0" and lt: "k < r \<longrightarrow> spec_score s s (k * k) r < 0"
    by auto
  have "\<not> k < r" using lt spec_score_nonneg [of s s "k * k" r] by auto
  moreover have "\<not> r < k"
  proof
    assume "r < k"
    moreover from rin have "1 \<le> r" "(k * k) mod r = 0" by (simp_all add: rows)
    ultimately have "0 < spec_score s s (k * k) r" using s by (intro square_score_pos)
    with le show False by simp
  qed
  ultimately have "r = k" by simp
  then have grid: "best_arrangement st = Some (k, k, s div k)"
    using ba k by (simp add: spec_edge_def)
  have "k = 3" if "k * k = 9"
  proof -
    have "\<not> k \<le> 2"
    proof
      assume "k \<le> 2"
      then have "k * k \<le> 2 * 2" using k by (intro mult_mono) simp_all
      with that show False by simp
    qed
    moreover have "\<not> 4 \<le> k"
    proof
      assume "4 \<le> k"
      then have "4 * 4 \<le> k * k" by (intro mult_mono) simp_all
      with that show False by simp
    qed
    ultimately show ?thesis by simp
  qed
  then show ?thesis
    using st grid n by (auto simp: grid_planner_def choose_grid_def)
qed

theorem planner_perfect_square_witness: "grid_planner 10 10 (2 * 2) = Inr (2, 2, 10 div 2)"
proof -
  have "(1::int) \<le> 2" "(2::int) * 2 \<le> 10" by simp_all
  from planner_perfect_square [OF this] show ?thesis .
qed

subsection \<open>A candidate of edge 0\<close>

text \<open>
  With a positive target count the first value tried is 1 row; when the width is
  below the target count its edge is 0 and line 58 divides by it.
\<close>

lemma planner_first_edge_zero:
  assumes "0 < n" "0 < h" "0 \<le> w" "w < n"
  shows "grid_planner w h n = Inl ZeroDivisionError"
proof -
  have "1 \<le> int_sqrt n + 1" using int_sqrt_nonneg [of n] by simp
  then have range: "arrangement_range n = 1 # [2..int_sqrt n + 1]"
    by (simp add: arrangement_range_def upto_rec1)
  have "w div n = 0" using assms by simp
  then have "try_arrangement w h n 1 initial_search = Inl ZeroDivisionError"
    using assms by (simp add: try_arrangement_def)
  then show ?thesis using assms by (simp add: grid_planner_def range)
qed

text \<open>
  So the fallback of line 72 is never reached on a positive target count: when
  no candidate has a positive edge, the first one already raises.
\<close>

lemma planner_never_falls_back:
  assumes "0 < n" "0 < h" "0 < w"
    and "\<forall>r \<in> set (spec_rows n). \<not> 0 < spec_edge w h n r"
  shows "grid_planner w h n = Inl ZeroDivisionError"
proof -
  have "1 \<in> set (spec_rows n)"
    using int_sqrt_nonneg [of n] by (simp add: spec_rows_def)
  with assms(4) have "\<not> 0 < spec_edge w h n 1" by blast
  then have "w div n \<le> 0" using assms(2) by (simp add: spec_edge_def)
  moreover have "0 \<le> w div n" using assms(1,3) by (simp add: pos_imp_zdiv_nonneg_iff)
  ultimately have "w div n = 0" by simp
  then have "w < n" using assms(1,3) by (simp add: zdiv_eq_0_iff)
  with assms(1,2,3) show ?thesis by (intro planner_first_edge_zero) simp_all
qed

text \<open>
  C3. The planner is not total over positive inputs: on a 4 by 100 image and a
  target of 6 the single row of 6 columns has edge 0 and the planner raises
  \<^verbatim>\<open>ZeroDivisionError\<close>.
\<close>

theorem planner_raises_4_100_6: "grid_planner 4 100 6 = Inl ZeroDivisionError"
  by code_simp

text \<open>
  C4. On a 1 by 1 image and a target of 2 the candidates are 1 and 2 rows, both of
  edge 0; the planner raises \<^verbatim>\<open>ZeroDivisionError\<close> and does not fall back to 3
  by 3.
\<close>

theorem planner_no_fallback_1_1_2:
  "spec_rows 2 = [1, 2] \<and> spec_edge 1 1 2 1 = 0 \<and> spec_edge 1 1 2 2 = 0 \<and>
   grid_planner 1 1 2 = Inl ZeroDivisionError"
  by code_simp

text \<open>
  C2. On a 5 by 5 image and a target of 9 the planner raises
  \<^verbatim>\<open>ZeroDivisionError\<close> in the search, before the override to 3 by 3 of line 85
  is reached; \<open>min (5 div 3) (5 div 3)\<close> is 1.
\<close>

theorem planner_raises_5_5_9:
  "grid_planner 5 5 9 = Inl ZeroDivisionError \<and> min ((5::int) div 3) (5 div 3) = 1"
  by code_simp

text \<open>Where the search of a target of 9 returns, the override applies.\<close>

lemma planner_nine:
  assumes "9 \<le> w" "3 \<le> h"
  shows "grid_planner w h 9 = Inr (3, 3, min (w div 3) (h div 3))"
proof -
  have sq: "int_sqrt 9 = 3" using int_sqrt_square [of 3] by simp
  have rows: "spec_rows 9 = [1, 3]" by (simp add: spec_rows_def sq upto_rec1)
  have "9 div 9 \<le> w div 9" "3 div 3 \<le> w div 3" "3 div 3 \<le> h div 3"
    using assms by (intro zdiv_mono1; simp)+
  then have "\<forall>r \<in> set (spec_rows 9). 0 < spec_edge w h 9 r"
    using assms by (simp add: rows spec_edge_def)
  from search_range [OF _ this] obtain st where
    "search_arrangements w h 9 (arrangement_range 9) initial_search = Inr st"
    by auto
  then show ?thesis by (simp add: grid_planner_def choose_grid_def)
qed

section \<open>Properties of the extraction\<close>

subsection \<open>What the loops add to the journal\<close>

lemma image_save_journal:
  "image_save fs p im = Inr fs' \<Longrightarrow> journal fs' = journal fs @ [(p, im)]"
  by (auto simp: image_save_def split: if_splits)

lemma save_patch_journal:
  assumes "save_patch job i j fs = Inr fs'"
  shows "\<exists>patch. make_patch job i j = Inr patch \<and>
           journal fs' = journal fs @ [(patch_path job i j, patch)]"
  using assms by (auto simp: save_patch_def split: sum.splits dest: image_save_journal)

lemma patch_row_journal:
  "patch_row job i js fs c = (fs', res) \<Longrightarrow>
     \<exists>new. journal fs' = journal fs @ new \<and>
       list_all2 (saved_patch job) (take (length new) (map (Pair i) js)) new \<and>
       c + int (length new) \<le> max c (target_N job) \<and>
       (\<forall>c'. res = Inr c' \<longrightarrow>
          c' = c + int (length new) \<and> (length new = length js \<or> target_N job \<le> c'))"
proof (induction js arbitrary: fs c)
  case Nil
  then show ?case by (intro exI [of _ "[]"]) auto
next
  case (Cons j js)
  show ?case
  proof (cases "target_N job \<le> c")
    case True
    with Cons.prems show ?thesis by (intro exI [of _ "[]"]) auto
  next
    case False
    show ?thesis
    proof (cases "save_patch job i j fs")
      case (Inl e)
      with Cons.prems False show ?thesis by (intro exI [of _ "[]"]) auto
    next
      case (Inr fs1)
      from save_patch_journal [OF Inr] obtain patch where
        patch: "make_patch job i j = Inr patch"
          "journal fs1 = journal fs @ [(patch_path job i j, patch)]"
        by blast
      from Cons.prems False Inr have "patch_row job i js fs1 (c + 1) = (fs', res)"
        by simp
      from Cons.IH [OF this] obtain new where new:
        "journal fs' = journal fs1 @ new"
        "list_all2 (saved_patch job) (take (length new) (map (Pair i) js)) new"
        "c + 1 + int (length new) \<le> max (c + 1) (target_N job)"
        "\<forall>c'. res = Inr c' \<longrightarrow>
           c' = c + 1 + int (length new) \<and> (length new = length js \<or> target_N job \<le> c')"
        by blast
      let ?new = "(patch_path job i j, patch) # new"
      have "journal fs' = journal fs @ ?new" using new(1) patch(2) by simp
      moreover have "list_all2 (saved_patch job)
          (take (length ?new) (map (Pair i) (j # js))) ?new"
        using new(2) patch(1) by (simp add: saved_patch_def)
      moreover have "c + int (length ?new) \<le> max c (target_N job)"
        using new(3) False by simp
      moreover have "\<forall>c'. res = Inr c' \<longrightarrow>
          c' = c + int (length ?new) \<and>
          (length ?new = length (j # js) \<or> target_N job \<le> c')"
      proof (intro allI impI)
        fix c' assume "res = Inr c'"
        with new(4) have "c' = c + 1 + int (length new)"
          "length new = length js \<or> target_N job \<le> c'" by blast+
        then show "c' = c + int (length ?new) \<and>
          (length ?new = length (j # js) \<or> target_N job \<le> c')" by simp
      qed
      ultimately show ?thesis by (intro exI [of _ ?new]) (intro conjI)
    qed
  qed
qed

lemma list_all2_take_length:
  assumes "list_all2 P (take (length ys) xs) ys"
  shows "length ys \<le> length xs"
  using list_all2_lengthD [OF assms] by simp

lemma patch_rows_journal:
  "patch_rows job rows fs c = (fs', res) \<Longrightarrow>
     \<exists>new. journal fs' = journal fs @ new \<and>
       list_all2 (saved_patch job)
         (take (length new) (grid_cells rows (num_patches_x job))) new \<and>
       c + int (length new) \<le> max c (target_N job) \<and>
       (\<forall>c'. res = Inr c' \<longrightarrow>
          c' = c + int (length new) \<and>
          (length new = length (grid_cells rows (num_patches_x job)) \<or> target_N job \<le> c'))"
proof (induction rows arbitrary: fs c)
  case Nil
  then show ?case by (intro exI [of _ "[]"]) (auto simp: grid_cells_def)
next
  case (Cons i rows)
  let ?row = "map (Pair i) [0..num_patches_x job - 1]"
  let ?rest = "grid_cells rows (num_patches_x job)"
  have cells: "grid_cells (i # rows) (num_patches_x job) = ?row @ ?rest"
    by (simp add: grid_cells_def)
  obtain fs1 res1 where row: "patch_row job i [0..num_patches_x job - 1] fs c = (fs1, res1)"
    by (cases "patch_row job i [0..num_patches_x job - 1] fs c") blast
  from patch_row_journal [OF row] obtain new1 where new1:
    "journal fs1 = journal fs @ new1"
    "list_all2 (saved_patch job) (take (length new1) ?row) new1"
    "c + int (length new1) \<le> max c (target_N job)"
    "\<forall>c'. res1 = Inr c' \<longrightarrow>
       c' = c + int (length new1) \<and>
       (length new1 = length [0..num_patches_x job - 1] \<or> target_N job \<le> c')"
    by blast
  have len1: "length new1 \<le> length ?row" by (rule list_all2_take_length [OF new1(2)])
  then have "take (length new1) (?row @ ?rest) = take (length new1) ?row"
    by simp
  with new1(2) have all2: "list_all2 (saved_patch job)
      (take (length new1) (grid_cells (i # rows) (num_patches_x job))) new1"
    by (simp only: cells)
  show ?case
  proof (cases res1)
    case (Inl e)
    with Cons.prems row have "fs' = fs1" "res = Inl e" by simp_all
    then show ?thesis using new1(1,3) all2
      by (intro exI [of _ new1]) simp
  next
    case (Inr c1)
    have "length ?row = length [0..num_patches_x job - 1]" by simp
    with new1(4) Inr have c1: "c1 = c + int (length new1)"
      and full: "length new1 = length ?row \<or> target_N job \<le> c1" by metis+
    show ?thesis
    proof (cases "target_N job \<le> c1")
      case True
      with Cons.prems row Inr have "fs' = fs1" "res = Inr c1" by simp_all
      then show ?thesis using new1(1,3) all2 c1 True
        by (intro exI [of _ new1]) simp
    next
      case False
      with full have all1: "length new1 = length ?row" by simp
      from Cons.prems row Inr False have "patch_rows job rows fs1 c1 = (fs', res)" by simp
      from Cons.IH [OF this] obtain new2 where new2:
        "journal fs' = journal fs1 @ new2"
        "list_all2 (saved_patch job) (take (length new2) ?rest) new2"
        "c1 + int (length new2) \<le> max c1 (target_N job)"
        "\<forall>c'. res = Inr c' \<longrightarrow>
           c' = c1 + int (length new2) \<and> (length new2 = length ?rest \<or> target_N job \<le> c')"
        by blast
      let ?new = "new1 @ new2"
      have "journal fs' = journal fs @ ?new" using new1(1) new2(1) by simp
      moreover have "list_all2 (saved_patch job)
          (take (length ?new) (grid_cells (i # rows) (num_patches_x job))) ?new"
      proof -
        have "take (length ?new) (?row @ ?rest) = ?row @ take (length new2) ?rest"
          using all1 by simp
        moreover have "list_all2 (saved_patch job) ?row new1"
          using new1(2) all1 by simp
        ultimately show ?thesis using new2(2) by (simp add: cells list_all2_appendI)
      qed
      moreover have "c + int (length ?new) \<le> max c (target_N job)"
        using new2(3) c1 False by simp
      moreover have "\<forall>c'. res = Inr c' \<longrightarrow>
          c' = c + int (length ?new) \<and>
          (length ?new = length (grid_cells (i # rows) (num_patches_x job)) \<or>
           target_N job \<le> c')"
      proof (intro allI impI)
        fix c' assume "res = Inr c'"
        with new2(4) have "c' = c1 + int (length new2)"
          "length new2 = length ?rest \<or> target_N job \<le> c'" by blast+
        then show "c' = c + int (length ?new) \<and>
          (length ?new = length (grid_cells (i # rows) (num_patches_x job)) \<or>
           target_N job \<le> c')"
          using c1 all1 by (simp only: cells length_append of_nat_add) auto
      qed
      ultimately show ?thesis by (intro exI [of _ ?new]) (intro conjI)
    qed
  qed
qed

subsection \<open>The whole function\<close>

lemma makedirs_journal: "makedirs fs d = Inr fs1 \<Longrightarrow> journal fs1 = journal fs"
  by (auto simp: makedirs_def split: if_splits)

lemma make_patch_square:
  assumes "make_patch job i j = Inr patch"
  shows "image_size patch = (patch_size job, patch_size job)"
proof -
  obtain l t r b where box: "crop_box job i j = (l, t, r, b)"
    by (cases "crop_box job i j") auto
  show ?thesis
  proof (cases "r - l \<noteq> patch_size job \<or> b - t \<noteq> patch_size job")
    case True
    with assms box show ?thesis
      by (auto simp: make_patch_def split: if_splits)
  next
    case False
    with assms box show ?thesis
      by (auto simp: make_patch_def split: if_splits)
  qed
qed

text \<open>
  Every outcome of the function: either nothing was saved and an error was
  raised, or the planner returned a grid and the journal grew by the patches of
  an initial segment of the grid's cells, in row-major order.
\<close>

lemma extract_journal:
  assumes "divide_image_into_patches fs image_path n out = (fs', res)"
  shows "(journal fs' = journal fs \<and> (\<exists>e. res = Inl e)) \<or>
    (\<exists>im rows columns edge new.
       image_open fs image_path = Inr im \<and>
       grid_planner (fst (image_size im)) (snd (image_size im)) n = Inr (rows, columns, edge) \<and>
       journal fs' = journal fs @ new \<and>
       list_all2
         (saved_patch
            \<lparr>img = im, width = fst (image_size im), height = snd (image_size im),
             base_name = splitext_root (basename image_path),
             output_dir = resolve_output_dir image_path out, target_N = n,
             num_patches_x = columns, patch_size = edge\<rparr>)
         (take (length new) (grid_cells [0..rows - 1] columns)) new \<and>
       int (length new) \<le> max 0 n \<and>
       (\<forall>c'. res = Inr c' \<longrightarrow> c' = int (length new)))"
proof (cases "path_exists fs image_path")
  case False
  with assms show ?thesis by (auto simp: divide_image_into_patches_def)
next
  case ex: True
  show ?thesis
  proof (cases "image_open fs image_path")
    case (Inl e)
    with assms ex show ?thesis by (auto simp: divide_image_into_patches_def)
  next
    case im: (Inr im)
    obtain w h where sz: "image_size im = (w, h)" by (cases "image_size im") auto
    show ?thesis
    proof (cases "makedirs fs (resolve_output_dir image_path out)")
      case (Inl e)
      with assms ex im sz show ?thesis by (auto simp: divide_image_into_patches_def)
    next
      case mk: (Inr fs1)
      have j1: "journal fs1 = journal fs" by (rule makedirs_journal [OF mk])
      show ?thesis
      proof (cases "grid_planner w h n")
        case (Inl e)
        with assms ex im sz mk j1 show ?thesis
          by (auto simp: divide_image_into_patches_def)
      next
        case (Inr grid)
        obtain rows columns edge where grid: "grid = (rows, columns, edge)"
          by (cases grid) auto
        let ?job = "\<lparr>img = im, width = w, height = h,
             base_name = splitext_root (basename image_path),
             output_dir = resolve_output_dir image_path out, target_N = n,
             num_patches_x = columns, patch_size = edge\<rparr>"
        from assms ex im sz mk Inr grid
        have "patch_rows ?job [0..rows - 1] fs1 0 = (fs', res)"
          by (simp add: divide_image_into_patches_def)
        from patch_rows_journal [OF this] obtain new where new:
          "journal fs' = journal fs1 @ new"
          "list_all2 (saved_patch ?job)
             (take (length new) (grid_cells [0..rows - 1] (num_patches_x ?job))) new"
          "0 + int (length new) \<le> max 0 (target_N ?job)"
          "\<forall>c'. res = Inr c' \<longrightarrow> c' = 0 + int (length new) \<and>
             (length new = length (grid_cells [0..rows - 1] (num_patches_x ?job)) \<or>
              target_N ?job \<le> c')"
          by blast
        have "\<forall>c'. res = Inr c' \<longrightarrow> c' = int (length new)"
          using new(4) by simp
        then show ?thesis
          using im sz Inr grid new(1,2,3) j1
          by (intro disjI2 exI [of _ im] exI [of _ rows] exI [of _ columns]
                exI [of _ edge] exI [of _ new]) simp
      qed
    qed
  qed
qed

text \<open>
  C7. When the image path does not exist, the function raises
  \<^verbatim>\<open>FileNotFoundError\<close> with a message that contains the path, and the file
  system is left as it was: no directory has been created.
\<close>

theorem missing_image_not_found:
  assumes "\<not> path_exists fs image_path"
  shows "divide_image_into_patches fs image_path n out =
           (fs, Inl (FileNotFoundError (not_found_message image_path))) \<and>
         (\<exists>before after. not_found_message image_path = before @ image_path @ after)"
proof -
  have "not_found_message image_path =
      ''Image file not found: '' @ image_path @
      ([CHR 0x0A] @ ''Please ensure the image file exists at the specified path.'')"
    by (simp add: not_found_message_def)
  then have "\<exists>before after. not_found_message image_path = before @ image_path @ after"
    by blast
  then show ?thesis using assms by (simp add: divide_image_into_patches_def)
qed

theorem missing_image_not_found_witness:
  "\<not> path_exists example_fs ''photos/none.jpg'' \<and>
   divide_image_into_patches example_fs ''photos/none.jpg'' 9 (Some ''out'') =
     (example_fs, Inl (FileNotFoundError (not_found_message ''photos/none.jpg'')))"
proof -
  have missing: "\<not> path_exists example_fs ''photos/none.jpg''"
    by (simp add: path_exists_def example_fs_def)
  from missing_image_not_found [OF missing] missing show ?thesis by blast
qed

text \<open>
  C9. Whatever the outcome of the function, the images it has saved are, in this
  order, the patches of an initial segment of the grid's cells in row-major
  order; the patch of cell \<open>(i, j)\<close> is saved in the output directory under the
  name \<open>base_patch_i_j.png\<close> and is a square of the grid's edge (a crop of
  another size has been resized to it).
\<close>

theorem extract_patches_named:
  assumes "divide_image_into_patches fs image_path n out = (fs', res)"
  shows "\<exists>new. journal fs' = journal fs @ new \<and>
    (new = [] \<or>
     (\<exists>im rows columns edge.
        image_open fs image_path = Inr im \<and>
        grid_planner (fst (image_size im)) (snd (image_size im)) n
          = Inr (rows, columns, edge) \<and>
        list_all2
          (\<lambda>cell entry.
             fst entry =
               path_join (resolve_output_dir image_path out)
                 (splitext_root (basename image_path) @ ''_patch_'' @ str_int (fst cell)
                  @ ''_'' @ str_int (snd cell) @ ''.png'') \<and>
             image_size (snd entry) = (edge, edge))
          (take (length new) (grid_cells [0..rows - 1] columns)) new))"
proof -
  from extract_journal [OF assms] show ?thesis
  proof (elim disjE conjE exE)
    assume "journal fs' = journal fs"
    then show ?thesis by (intro exI [of _ "[]"]) simp
  next
    fix im rows columns edge new
    let ?job = "\<lparr>img = im, width = fst (image_size im), height = snd (image_size im),
             base_name = splitext_root (basename image_path),
             output_dir = resolve_output_dir image_path out, target_N = n,
             num_patches_x = columns, patch_size = edge\<rparr>"
    assume im: "image_open fs image_path = Inr im"
      and gp: "grid_planner (fst (image_size im)) (snd (image_size im)) n
                 = Inr (rows, columns, edge)"
      and j: "journal fs' = journal fs @ new"
      and saved: "list_all2 (saved_patch ?job)
                    (take (length new) (grid_cells [0..rows - 1] columns)) new"
    have "list_all2
          (\<lambda>cell entry.
             fst entry =
               path_join (resolve_output_dir image_path out)
                 (splitext_root (basename image_path) @ ''_patch_'' @ str_int (fst cell)
                  @ ''_'' @ str_int (snd cell) @ ''.png'') \<and>
             image_size (snd entry) = (edge, edge))
          (take (length new) (grid_cells [0..rows - 1] columns)) new"
      using saved
    proof (rule list_all2_mono)
      fix cell entry
      assume "saved_patch ?job cell entry"
      then have p: "fst entry = patch_path ?job (fst cell) (snd cell)"
        and m: "make_patch ?job (fst cell) (snd cell) = Inr (snd entry)"
        by (simp_all add: saved_patch_def)
      from make_patch_square [OF m] p
      show "fst entry =
               path_join (resolve_output_dir image_path out)
                 (splitext_root (basename image_path) @ ''_patch_'' @ str_int (fst cell)
                  @ ''_'' @ str_int (snd cell) @ ''.png'') \<and>
             image_size (snd entry) = (edge, edge)"
        by (simp add: patch_path_def patch_filename_def)
    qed
    with im gp j show ?thesis by blast
  qed
qed

theorem extract_patches_named_witness:
  "journal (fst (divide_image_into_patches example_fs ''photos/img.v2.png'' 4 None)) =
     [(''photos/img.v2_patch_0_0.png'', Crop (Decoded 4 4) (0, 0, 2, 2)),
      (''photos/img.v2_patch_0_1.png'', Crop (Decoded 4 4) (2, 0, 4, 2)),
      (''photos/img.v2_patch_1_0.png'', Crop (Decoded 4 4) (0, 2, 2, 4)),
      (''photos/img.v2_patch_1_1.png'', Crop (Decoded 4 4) (2, 2, 4, 4))] \<and>
   (\<exists>new. journal (fst (divide_image_into_patches example_fs ''photos/img.v2.png'' 4 None))
            = journal example_fs @ new \<and>
     (new = [] \<or>
      (\<exists>im rows columns edge.
        image_open example_fs ''photos/img.v2.png'' = Inr im \<and>
        grid_planner (fst (image_size im)) (snd (image_size im)) 4
          = Inr (rows, columns, edge) \<and>
        list_all2
          (\<lambda>cell entry.
             fst entry =
               path_join (resolve_output_dir ''photos/img.v2.png'' None)
                 (splitext_root (basename ''photos/img.v2.png'') @ ''_patch_''
                  @ str_int (fst cell) @ ''_'' @ str_int (snd cell) @ ''.png'') \<and>
             image_size (snd entry) = (edge, edge))
          (take (length new) (grid_cells [0..rows - 1] columns)) new)))"
proof -
  have run: "divide_image_into_patches example_fs ''photos/img.v2.png'' 4 None =
      (fst (divide_image_into_patches example_fs ''photos/img.v2.png'' 4 None),
       snd (divide_image_into_patches example_fs ''photos/img.v2.png'' 4 None))"
    by simp
  have "journal (fst (divide_image_into_patches example_fs ''photos/img.v2.png'' 4 None)) =
     [(''photos/img.v2_patch_0_0.png'', Crop (Decoded 4 4) (0, 0, 2, 2)),
      (''photos/img.v2_patch_0_1.png'', Crop (Decoded 4 4) (2, 0, 4, 2)),
      (''photos/img.v2_patch_1_0.png'', Crop (Decoded 4 4) (0, 2, 2, 4)),
      (''photos/img.v2_patch_1_1.png'', Crop (Decoded 4 4) (2, 2, 4, 4))]"
    by code_simp
  with extract_patches_named [OF run] show ?thesis by (intro conjI)
qed

subsection \<open>Different cells have different paths\<close>

lemma digit_char_value:
  assumes "d < 10"
  shows "of_char (''0123456789'' ! d) = 48 + d"
proof -
  from assms have "d \<in> {0, 1, 2, 3, 4, 5, 6, 7, 8, 9}" by auto
  then show ?thesis by auto
qed

lemma digit_char_mem: "d < 10 \<Longrightarrow> ''0123456789'' ! d \<in> set ''0123456789''"
  by (rule nth_mem) simp

lemma digits_value_str_nat: "digits_value (str_nat n) = n"
proof (induction n rule: str_nat.induct)
  case (1 n)
  show ?case
  proof (cases "n < 10")
    case True
    then show ?thesis
      by (simp add: str_nat.simps [of n] digits_value_def digit_char_value)
  next
    case False
    with 1 have ih: "digits_value (str_nat (n div 10)) = n div 10" by simp
    have "n mod 10 < 10" by simp
    then have "of_char (''0123456789'' ! (n mod 10)) = 48 + n mod 10"
      by (rule digit_char_value)
    with False ih show ?thesis
      by (simp add: str_nat.simps [of n] digits_value_def)
  qed
qed

lemma str_nat_inj: "str_nat a = str_nat b \<Longrightarrow> a = b"
  by (metis digits_value_str_nat)

lemma str_nat_digits: "set (str_nat n) \<subseteq> set ''0123456789''"
proof (induction n rule: str_nat.induct)
  case (1 n)
  show ?case
  proof (cases "n < 10")
    case True
    then show ?thesis
      using digit_char_mem [of n] by (simp add: str_nat.simps [of n])
  next
    case False
    with 1 have "set (str_nat (n div 10)) \<subseteq> set ''0123456789''" by simp
    then show ?thesis
      using False digit_char_mem [of "n mod 10"] by (simp add: str_nat.simps [of n])
  qed
qed

lemma str_nat_no_sign: "CHR ''-'' \<notin> set (str_nat n)" "CHR ''_'' \<notin> set (str_nat n)"
  using str_nat_digits [of n] by auto

lemma str_int_no_underscore: "CHR ''_'' \<notin> set (str_int i)"
  by (simp add: str_int_def str_nat_no_sign)

lemma str_int_inj:
  assumes "str_int i = str_int j"
  shows "i = j"
proof (cases "i < 0"; cases "j < 0")
  assume "i < 0" "j < 0"
  with assms have "nat (- i) = nat (- j)" by (simp add: str_int_def str_nat_inj)
  with \<open>i < 0\<close> \<open>j < 0\<close> show ?thesis by simp
next
  assume "i < 0" "\<not> j < 0"
  with assms have "CHR ''-'' \<in> set (str_nat (nat j))"
    by (metis str_int_def append_Cons list.set_intros(1))
  then show ?thesis by (simp add: str_nat_no_sign)
next
  assume "\<not> i < 0" "j < 0"
  with assms have "CHR ''-'' \<in> set (str_nat (nat i))"
    by (metis str_int_def append_Cons list.set_intros(1))
  then show ?thesis by (simp add: str_nat_no_sign)
next
  assume "\<not> i < 0" "\<not> j < 0"
  with assms have "nat i = nat j" by (simp add: str_int_def str_nat_inj)
  with \<open>\<not> i < 0\<close> \<open>\<not> j < 0\<close> show ?thesis by simp
qed

lemma patch_filename_inj:
  assumes "patch_filename base i j = patch_filename base i' j'"
  shows "i = i' \<and> j = j'"
proof -
  from assms have "str_int i @ CHR ''_'' # (str_int j @ ''.png'') =
      str_int i' @ CHR ''_'' # (str_int j' @ ''.png'')"
    by (simp add: patch_filename_def)
  then have "str_int i = str_int i' \<and> str_int j @ ''.png'' = str_int j' @ ''.png''"
    using str_int_no_underscore by (simp add: append_Cons_eq_iff)
  then show ?thesis by (simp add: str_int_inj)
qed

lemma path_join_inj:
  assumes "b \<noteq> []" "hd b \<noteq> CHR ''/''" "b' \<noteq> []" "hd b' \<noteq> CHR ''/''"
    and "path_join a b = path_join a b'"
  shows "b = b'"
  using assms by (simp add: path_join_def split: if_splits)

lemma patch_filename_head:
  assumes "CHR ''/'' \<notin> set base"
  shows "patch_filename base i j \<noteq> [] \<and> hd (patch_filename base i j) \<noteq> CHR ''/''"
  using assms by (cases base) (auto simp: patch_filename_def)

lemma patch_path_inj:
  assumes "CHR ''/'' \<notin> set (base_name job)"
    and "patch_path job i j = patch_path job i' j'"
  shows "i = i' \<and> j = j'"
proof -
  let ?a = "patch_filename (base_name job) i j"
  let ?b = "patch_filename (base_name job) i' j'"
  have a: "?a \<noteq> []" "hd ?a \<noteq> CHR ''/''"
    using patch_filename_head [OF assms(1), of i j] by blast+
  have b: "?b \<noteq> []" "hd ?b \<noteq> CHR ''/''"
    using patch_filename_head [OF assms(1), of i' j'] by blast+
  have "path_join (output_dir job) ?a = path_join (output_dir job) ?b"
    using assms(2) unfolding patch_path_def .
  from path_join_inj [OF a b this] show ?thesis by (rule patch_filename_inj)
qed

lemma basename_no_slash: "CHR ''/'' \<notin> set (basename p)"
  by (auto simp: basename_def dest: set_takeWhileD)

lemma splitext_root_no_slash:
  assumes "CHR ''/'' \<notin> set name"
  shows "CHR ''/'' \<notin> set (splitext_root name)"
proof -
  have head: "dropWhile (\<lambda>c. c \<noteq> CHR ''/'') (rev name) = []"
    using assms by auto
  have tl_sub: "set (tl xs) \<subseteq> set xs" for xs :: string
    by (cases xs) auto
  have drop_sub: "set (dropWhile Q xs) \<subseteq> set xs" for Q and xs :: string
    by (auto dest: set_dropWhileD)
  have "set (tl (dropWhile (\<lambda>c. c \<noteq> CHR ''.'') (rev (basename name)))) \<subseteq> set (basename name)"
    using tl_sub [of "dropWhile (\<lambda>c. c \<noteq> CHR ''.'') (rev (basename name))"]
      drop_sub [of "\<lambda>c. c \<noteq> CHR ''.''" "rev (basename name)"]
    by simp
  then have "CHR ''/'' \<notin> set (tl (dropWhile (\<lambda>c. c \<noteq> CHR ''.'') (rev (basename name))))"
    using basename_no_slash [of name] by blast
  then show ?thesis
    using assms by (simp add: splitext_root_def Let_def head)
qed

lemma grid_cells_fst: "cell \<in> set (grid_cells rows columns) \<Longrightarrow> fst cell \<in> set rows"
  by (auto simp: grid_cells_def)

lemma distinct_grid_cells: "distinct rows \<Longrightarrow> distinct (grid_cells rows columns)"
proof (induction rows)
  case Nil
  then show ?case by (simp add: grid_cells_def)
next
  case (Cons i rows)
  have cells: "grid_cells (i # rows) columns =
      map (Pair i) [0..columns - 1] @ grid_cells rows columns"
    by (simp add: grid_cells_def)
  have "distinct (map (Pair i) [0..columns - 1])"
    by (simp add: distinct_map inj_on_def)
  moreover have "distinct (grid_cells rows columns)" using Cons by simp
  moreover have "set (map (Pair i) [0..columns - 1]) \<inter> set (grid_cells rows columns) = {}"
    using Cons.prems grid_cells_fst [of _ rows columns] by fastforce
  ultimately show ?case by (simp add: cells)
qed

text \<open>
  C5. When the function returns a count, the journal has grown by exactly that
  many saved patches, all under different paths, and the count is at most the
  target count.
\<close>

theorem extract_count:
  assumes "divide_image_into_patches fs image_path n out = (fs', Inr count)"
  shows "\<exists>new. journal fs' = journal fs @ new \<and> count = int (length new) \<and>
           distinct (map fst new) \<and> count \<le> n"
proof -
  from extract_journal [OF assms] obtain im rows columns edge new where
    gp: "grid_planner (fst (image_size im)) (snd (image_size im)) n
           = Inr (rows, columns, edge)"
    and j: "journal fs' = journal fs @ new"
    and saved: "list_all2
         (saved_patch
            \<lparr>img = im, width = fst (image_size im), height = snd (image_size im),
             base_name = splitext_root (basename image_path),
             output_dir = resolve_output_dir image_path out, target_N = n,
             num_patches_x = columns, patch_size = edge\<rparr>)
         (take (length new) (grid_cells [0..rows - 1] columns)) new"
    and le: "int (length new) \<le> max 0 n"
    and cnt: "count = int (length new)"
    by auto
  let ?job = "\<lparr>img = im, width = fst (image_size im), height = snd (image_size im),
             base_name = splitext_root (basename image_path),
             output_dir = resolve_output_dir image_path out, target_N = n,
             num_patches_x = columns, patch_size = edge\<rparr>"
  let ?cells = "take (length new) (grid_cells [0..rows - 1] columns)"
  have "0 \<le> n" using gp by (auto simp: grid_planner_def split: if_splits)
  with le cnt have "count \<le> n" by simp
  moreover have "distinct (map fst new)"
  proof -
    have "map fst new = map (\<lambda>cell. patch_path ?job (fst cell) (snd cell)) ?cells"
      using saved by (induction rule: list_all2_induct) (simp_all add: saved_patch_def)
    moreover have "distinct ?cells"
      by (intro distinct_take distinct_grid_cells) simp
    moreover have "inj_on (\<lambda>cell. patch_path ?job (fst cell) (snd cell)) (set ?cells)"
    proof (rule inj_onI)
      fix a b
      assume "patch_path ?job (fst a) (snd a) = patch_path ?job (fst b) (snd b)"
      moreover have "CHR ''/'' \<notin> set (base_name ?job)"
        using splitext_root_no_slash [OF basename_no_slash] by simp
      ultimately have "fst a = fst b \<and> snd a = snd b" by (rule patch_path_inj [rotated])
      then show "a = b" by (simp add: prod_eq_iff)
    qed
    ultimately show ?thesis by (simp add: distinct_map)
  qed
  ultimately show ?thesis using j cnt by blast
qed

theorem extract_count_witness:
  "\<exists>fs'. divide_image_into_patches example_fs ''photos/img.v2.png'' 4 None = (fs', Inr 4) \<and>
     (\<exists>new. journal fs' = journal example_fs @ new \<and> (4::int) = int (length new) \<and>
        distinct (map fst new) \<and> (4::int) \<le> 4)"
proof -
  have "snd (divide_image_into_patches example_fs ''photos/img.v2.png'' 4 None) = Inr 4"
    by code_simp
  then have run: "divide_image_into_patches example_fs ''photos/img.v2.png'' 4 None =
      (fst (divide_image_into_patches example_fs ''photos/img.v2.png'' 4 None), Inr 4)"
    by (simp add: prod_eq_iff)
  from extract_count [OF run] run show ?thesis by blast
qed

subsection \<open>The grid lies within the image\<close>

lemma edge_times_count:
  assumes "0 < (e::int)" "e \<le> h div y" "0 < h"
  shows "y * e \<le> h"
proof -
  have "0 < y"
  proof (rule ccontr)
    assume "\<not> 0 < y"
    then have "y = 0 \<or> y < 0" by auto
    then have "h div y \<le> 0"
      using assms(3) by (auto simp: div_nonneg_neg_le0)
    with assms(1,2) show False by simp
  qed
  then have "y * e \<le> y * (h div y)" using assms(2) by (simp add: mult_left_mono)
  moreover have "0 \<le> h mod y" using \<open>0 < y\<close> by simp
  then have "y * (h div y) \<le> h" using mult_div_mod_eq [of y h] by linarith
  ultimately show ?thesis by simp
qed

lemma try_arrangement_fits:
  assumes "try_arrangement w h n y st = Inr st'" "0 < w" "0 < h"
    and "\<forall>a. best_arrangement st = Some a \<longrightarrow> fits_image w h a"
  shows "\<forall>a. best_arrangement st' = Some a \<longrightarrow> fits_image w h a"
proof (cases "st' = st")
  case True
  with assms(4) show ?thesis by simp
next
  case False
  define e where "e = min (h div y) (w div (n div y))"
  from assms(1) False have st': "best_arrangement st' = Some (y, n div y, e)" and e: "0 < e"
    by (auto simp: try_arrangement_def Let_def e_def split: if_splits)
  have "y * e \<le> h" using e assms(3) by (intro edge_times_count) (simp_all add: e_def)
  moreover have "(n div y) * e \<le> w"
    using e assms(2) by (intro edge_times_count) (simp_all add: e_def)
  ultimately show ?thesis using st' e by (simp add: fits_image_def)
qed

lemma search_arrangements_fits:
  assumes "search_arrangements w h n ys st = Inr st'" "0 < w" "0 < h"
    and "\<forall>a. best_arrangement st = Some a \<longrightarrow> fits_image w h a"
  shows "\<forall>a. best_arrangement st' = Some a \<longrightarrow> fits_image w h a"
  using assms(1,4)
proof (induction ys arbitrary: st)
  case Nil
  then show ?case by simp
next
  case (Cons y ys)
  from Cons.prems(1) obtain st1 where
    st1: "try_arrangement w h n y st = Inr st1" "search_arrangements w h n ys st1 = Inr st'"
    by (auto split: sum.splits)
  from try_arrangement_fits [OF st1(1) assms(2,3) Cons.prems(2)] Cons.IH [OF st1(2)]
  show ?case by blast
qed

lemma choose_grid_fits:
  assumes "0 < w" "0 < h"
    and "\<forall>a. best_arrangement st = Some a \<longrightarrow> fits_image w h a"
  shows "fits_image w h (choose_grid w h n st)"
proof -
  have "0 \<le> w div 3" "0 \<le> h div 3" using assms(1,2) by simp_all
  moreover have "3 * (w div 3) \<le> w" "3 * (h div 3) \<le> h" by simp_all
  ultimately have "fits_image w h (3, 3, min (w div 3) (h div 3))"
    by (auto simp: fits_image_def min_def)
  with assms(3) show ?thesis
    by (auto simp: choose_grid_def split: option.splits)
qed

text \<open>Within a fitting grid no crop box is clipped and no patch is resized.\<close>

lemma fitting_crop:
  assumes fit: "fits_image w h (rows, columns, edge)"
    and i: "0 \<le> i" "i < rows" and j: "0 \<le> j" "j < columns"
    and job: "width job = w" "height job = h" "patch_size job = edge" "img job = im"
  shows "0 \<le> j * edge \<and> j * edge + edge \<le> w \<and> 0 \<le> i * edge \<and> i * edge + edge \<le> h \<and>
         crop_box job i j = (j * edge, i * edge, j * edge + edge, i * edge + edge) \<and>
         make_patch job i j = Inr (Crop im (j * edge, i * edge, j * edge + edge, i * edge + edge))"
proof -
  from fit have e: "0 \<le> edge" and cw: "columns * edge \<le> w" and rh: "rows * edge \<le> h"
    by (simp_all add: fits_image_def)
  have "(j + 1) * edge \<le> columns * edge" using j e by (intro mult_right_mono) simp_all
  then have right: "j * edge + edge \<le> w" using cw by (simp add: algebra_simps)
  have "(i + 1) * edge \<le> rows * edge" using i e by (intro mult_right_mono) simp_all
  then have bottom: "i * edge + edge \<le> h" using rh by (simp add: algebra_simps)
  have left: "0 \<le> j * edge" and top: "0 \<le> i * edge" using i j e by simp_all
  have box: "crop_box job i j = (j * edge, i * edge, j * edge + edge, i * edge + edge)"
    using right bottom job by (simp add: crop_box_def Let_def min_def)
  have "make_patch job i j =
      Inr (Crop im (j * edge, i * edge, j * edge + edge, i * edge + edge))"
    using e job by (simp add: make_patch_def box)
  with left right top bottom box show ?thesis by simp
qed

text \<open>
  C10. Whatever the search loop leaves in its state (an arrangement or none, so
  that the fallback applies), and with or without the override for a target of
  9, the grid chosen for an image of positive width and height satisfies
  \<open>columns * edge \<le> width\<close> and \<open>rows * edge \<le> height\<close>; for every cell
  \<open>(i, j)\<close> of the grid the crop box is
  \<open>(j * edge, i * edge, j * edge + edge, i * edge + edge)\<close>, it lies within the
  image, and the patch made is that crop itself, not a resized image. The
  planner is the case \<open>ys = arrangement_range n\<close>.
\<close>

theorem grid_within_image:
  assumes "0 < w" "0 < h" "image_size im = (w, h)"
    and "search_arrangements w h n ys initial_search = Inr st"
    and "choose_grid w h n st = (rows, columns, edge)"
    and "0 \<le> i" "i < rows" "0 \<le> j" "j < columns"
    and "job = \<lparr>img = im, width = w, height = h, base_name = base, output_dir = dir,
                 target_N = n, num_patches_x = columns, patch_size = edge\<rparr>"
  shows "columns * edge \<le> w \<and> rows * edge \<le> h \<and>
         0 \<le> j * edge \<and> j * edge + edge \<le> w \<and> 0 \<le> i * edge \<and> i * edge + edge \<le> h \<and>
         crop_box job i j = (j * edge, i * edge, j * edge + edge, i * edge + edge) \<and>
         make_patch job i j = Inr (Crop im (j * edge, i * edge, j * edge + edge, i * edge + edge))"
proof -
  have "\<forall>a. best_arrangement initial_search = Some a \<longrightarrow> fits_image w h a"
    by (simp add: initial_search_def)
  from search_arrangements_fits [OF assms(4) assms(1,2) this]
  have "fits_image w h (choose_grid w h n st)"
    by (rule choose_grid_fits [OF assms(1,2)])
  then have fit: "fits_image w h (rows, columns, edge)" using assms(5) by simp
  then have "columns * edge \<le> w \<and> rows * edge \<le> h" by (simp add: fits_image_def)
  moreover from assms(10) have "width job = w" "height job = h" "patch_size job = edge"
    "img job = im" by simp_all
  from fitting_crop [OF fit assms(6-9) this]
  have "0 \<le> j * edge \<and> j * edge + edge \<le> w \<and> 0 \<le> i * edge \<and> i * edge + edge \<le> h \<and>
         crop_box job i j = (j * edge, i * edge, j * edge + edge, i * edge + edge) \<and>
         make_patch job i j = Inr (Crop im (j * edge, i * edge, j * edge + edge, i * edge + edge))" .
  ultimately show ?thesis by simp
qed

theorem grid_within_image_witness:
  "grid_planner 1200 800 6 = Inr (2, 3, 400) \<and>
   (3::int) * 400 \<le> 1200 \<and> (2::int) * 400 \<le> 800 \<and>
   make_patch \<lparr>img = Decoded 1200 800, width = 1200, height = 800, base_name = ''img'',
                output_dir = ''out'', target_N = 6, num_patches_x = 3, patch_size = 400\<rparr> 1 2
     = Inr (Crop (Decoded 1200 800) (2 * 400, 1 * 400, 2 * 400 + 400, 1 * 400 + 400))"
proof -
  let ?st = "\<lparr>best_score = Some 0, best_arrangement = Some (2, 3, 400)\<rparr>"
  let ?job = "\<lparr>img = Decoded 1200 800, width = 1200, height = 800, base_name = ''img'',
                output_dir = ''out'', target_N = 6, num_patches_x = 3, patch_size = 400\<rparr>"
  have search: "search_arrangements 1200 800 6 (arrangement_range 6) initial_search = Inr ?st"
    by code_simp
  have choose: "choose_grid 1200 800 6 ?st = (2, 3, 400)" by code_simp
  have planner: "grid_planner 1200 800 6 = Inr (2, 3, 400)"
    using search choose by (simp add: grid_planner_def)
  have size: "image_size (Decoded 1200 800) = (1200, 800)" by simp
  have "(0::int) < 1200" "(0::int) < 800" "(0::int) \<le> 1" "(1::int) < 2" "(0::int) \<le> 2"
    "(2::int) < 3" by simp_all
  from grid_within_image [OF this(1,2) size search choose this(3-6), of ?job "''img''" "''out''"]
    planner
  show ?thesis by simp
qed

text \<open>
  Hence every image the function saves is an unclipped crop of the source image
  that lies within it.
\<close>

lemma list_all2_right_member:
  "list_all2 P xs ys \<Longrightarrow> y \<in> set ys \<Longrightarrow> \<exists>x \<in> set xs. P x y"
  by (induction rule: list_all2_induct) auto

lemma extract_saves_crops:
  assumes run: "divide_image_into_patches fs image_path n out = (fs', res)"
    and im: "image_open fs image_path = Inr im"
    and size: "0 < fst (image_size im)" "0 < snd (image_size im)"
    and entry: "entry \<in> set (journal fs') - set (journal fs)"
  shows "\<exists>i j edge. 0 \<le> i \<and> 0 \<le> j \<and> 0 \<le> edge \<and>
           j * edge + edge \<le> fst (image_size im) \<and> i * edge + edge \<le> snd (image_size im) \<and>
           snd entry = Crop im (j * edge, i * edge, j * edge + edge, i * edge + edge)"
proof -
  let ?w = "fst (image_size im)" and ?h = "snd (image_size im)"
  from extract_journal [OF run] entry im obtain rows columns edge new where
    gp: "grid_planner ?w ?h n = Inr (rows, columns, edge)"
    and j: "journal fs' = journal fs @ new"
    and saved: "list_all2
         (saved_patch
            \<lparr>img = im, width = ?w, height = ?h,
             base_name = splitext_root (basename image_path),
             output_dir = resolve_output_dir image_path out, target_N = n,
             num_patches_x = columns, patch_size = edge\<rparr>)
         (take (length new) (grid_cells [0..rows - 1] columns)) new"
    by auto
  let ?job = "\<lparr>img = im, width = ?w, height = ?h,
             base_name = splitext_root (basename image_path),
             output_dir = resolve_output_dir image_path out, target_N = n,
             num_patches_x = columns, patch_size = edge\<rparr>"
  from gp obtain st where
    st: "search_arrangements ?w ?h n (arrangement_range n) initial_search = Inr st"
      "choose_grid ?w ?h n st = (rows, columns, edge)"
    by (auto simp: grid_planner_def split: if_splits sum.splits)
  have "\<forall>a. best_arrangement initial_search = Some a \<longrightarrow> fits_image ?w ?h a"
    by (simp add: initial_search_def)
  from search_arrangements_fits [OF st(1) size this]
  have "fits_image ?w ?h (choose_grid ?w ?h n st)" by (rule choose_grid_fits [OF size])
  then have fit: "fits_image ?w ?h (rows, columns, edge)" using st(2) by simp
  from entry j have "entry \<in> set new" by auto
  from list_all2_right_member [OF saved this] obtain cell where
    cell: "cell \<in> set (take (length new) (grid_cells [0..rows - 1] columns))"
      "saved_patch ?job cell entry"
    by blast
  from cell(1) have "cell \<in> set (grid_cells [0..rows - 1] columns)" by (rule in_set_takeD)
  then have range: "0 \<le> fst cell" "fst cell < rows" "0 \<le> snd cell" "snd cell < columns"
    by (auto simp: grid_cells_def)
  have "width ?job = ?w" "height ?job = ?h" "patch_size ?job = edge" "img ?job = im"
    by simp_all
  from fitting_crop [OF fit range this]
  have inside: "snd cell * edge + edge \<le> ?w" "fst cell * edge + edge \<le> ?h"
    and made: "make_patch ?job (fst cell) (snd cell) =
      Inr (Crop im (snd cell * edge, fst cell * edge, snd cell * edge + edge,
                    fst cell * edge + edge))"
    by blast+
  from cell(2) have "make_patch ?job (fst cell) (snd cell) = Inr (snd entry)"
    by (simp add: saved_patch_def)
  with made have "snd entry = Crop im (snd cell * edge, fst cell * edge,
      snd cell * edge + edge, fst cell * edge + edge)" by simp
  moreover from fit have "0 \<le> edge" by (simp add: fits_image_def)
  ultimately show ?thesis
    using inside range(1,3)
    by (intro exI [of _ "fst cell"] exI [of _ "snd cell"] exI [of _ edge]) simp
qed


end
